theory Spec2Isabelle
  imports Main "HOL-Library.Multiset" "HOL-Library.Monad_Syntax"
begin

section \<open>The C++ type int\<close>

text \<open>
  Both programs are compiled for platforms where \<^verbatim>\<open>int\<close> has 32 bits. A value of the
  type is an integer in the range from \<open>INT_MIN\<close> to \<open>INT_MAX\<close>.
\<close>

definition INT_MAX :: int where
  "INT_MAX = 2147483647"

definition INT_MIN :: int where
  "INT_MIN = - 2147483648"

definition int_range :: "int \<Rightarrow> bool" where
  "int_range x = (INT_MIN \<le> x \<and> x \<le> INT_MAX)"

section \<open>Interval point cover (SegmentProcessor, FileReader)\<close>

subsection \<open>Data model\<close>

text \<open>
  A segment is the \<^verbatim>\<open>std::pair<int, int>\<close> of the source: \<open>fst\<close> is the start,
  \<open>snd\<close> the end. The solver only copies and compares segment coordinates, it never
  computes with them, so the C++ \<^verbatim>\<open>int\<close> values are embedded in \<^typ>\<open>int\<close>; every
  statement below holds in particular for all 32-bit values. Container sizes are assumed
  to fit the \<^verbatim>\<open>int\<close> variables the source stores them in.
\<close>

type_synonym segment = "int \<times> int"

text \<open>
  The exception thrown by the validation loop. The source builds the message
  \<^verbatim>\<open>"Segment i has start > end: (first, second)"\<close>; the embedding keeps the three
  numbers the message is built from.
\<close>

datatype validation_error = InvalidArgument nat int int

subsection \<open>find\_minimum\_points\_to\_cover\_all\_segments\<close>

text \<open>
  The validation loop \<^verbatim>\<open>for (size_t i = 0; i < segments.size(); ++i)\<close>: the first
  segment with \<^verbatim>\<open>first > second\<close> raises, \<open>None\<close> means the loop ran to its end.
\<close>

fun validate_segments :: "nat \<Rightarrow> segment list \<Rightarrow> validation_error option" where
  "validate_segments i [] = None"
| "validate_segments i (segment # rest) =
     (if fst segment > snd segment then Some (InvalidArgument i (fst segment) (snd segment))
      else validate_segments (Suc i) rest)"

text \<open>
  The selection loop over \<^verbatim>\<open>sorted_segments\<close>. Its state is
  \<^verbatim>\<open>current_covering_point\<close>; the points are returned in the order of the
  \<^verbatim>\<open>push_back\<close> calls. The source starts the loop with the value \<open>-1\<close> and
  tests \<^verbatim>\<open>current_covering_point == -1 || current_covering_point < segment_start\<close>.
\<close>

fun select_points :: "int \<Rightarrow> segment list \<Rightarrow> int list" where
  "select_points current_covering_point [] = []"
| "select_points current_covering_point (segment # rest) =
     (let segment_start = fst segment; segment_end = snd segment in
      if current_covering_point = - 1 \<or> current_covering_point < segment_start
      then segment_end # select_points segment_end rest
      else select_points current_covering_point rest)"

text \<open>
  \<^verbatim>\<open>std::sort\<close> with the comparator \<^verbatim>\<open>a.second < b.second\<close> is a library function:
  it returns a permutation of its input in ascending order of the ends and leaves the
  order of segments with equal ends unspecified. The solver therefore takes the sorting
  function as a parameter, and the theorems hold for every function that meets the
  contract \<open>sorts_by_end\<close>. The stable insertion sort \<open>sort_key snd\<close> is one such
  function.
\<close>

definition sorts_by_end :: "(segment list \<Rightarrow> segment list) \<Rightarrow> bool" where
  "sorts_by_end std_sort =
     (\<forall>xs. mset (std_sort xs) = mset xs \<and> sorted (map snd (std_sort xs)))"

definition find_minimum_points_to_cover_all_segments ::
  "(segment list \<Rightarrow> segment list) \<Rightarrow> segment list \<Rightarrow> validation_error + (int \<times> int list)" where
  "find_minimum_points_to_cover_all_segments std_sort segments =
     (if length segments = 0 then Inr (0, [])
      else case validate_segments 0 segments of
        Some e \<Rightarrow> Inl e
      | None \<Rightarrow>
          (let sorted_segments = std_sort segments;
               selected_points = select_points (- 1) sorted_segments;
               total_points_required = int (length selected_points)
           in Inr (total_points_required, selected_points)))"


subsection \<open>read\_segments\_from\_file\<close>

text \<open>
  The exceptions of the reader are \<^verbatim>\<open>std::runtime_error\<close> values that differ in
  their message only: \<^verbatim>\<open>"File not found: ..."\<close>, \<^verbatim>\<open>"Empty file"\<close>,
  \<^verbatim>\<open>"Invalid format"\<close>, \<^verbatim>\<open>"Invalid segment data"\<close> and
  \<^verbatim>\<open>"Unexpected end of file"\<close>.
\<close>

datatype read_error =
  FileNotFound | EmptyFile | InvalidFormat | InvalidSegmentData | UnexpectedEndOfFile

text \<open>
  The input file is the list of the lines that successive calls of \<^verbatim>\<open>std::getline\<close>
  return, or \<open>None\<close> when the file cannot be opened. The formatted extraction
  \<^verbatim>\<open>stream >> x\<close> of an \<^verbatim>\<open>int\<close> is a library function and a parameter of the
  reader: applied to the unread characters of a string stream it yields the value and
  the characters left, or \<open>None\<close> when the extraction fails.
\<close>

type_synonym extractor = "string \<Rightarrow> (int \<times> string) option"

text \<open>\<^verbatim>\<open>line_ss >> start >> end\<close>: two extractions from the same stream.\<close>

definition extract_pair :: "extractor \<Rightarrow> string \<Rightarrow> (int \<times> int) option" where
  "extract_pair extract_int line = do {
     (start, unread) \<leftarrow> extract_int line;
     (finish, _) \<leftarrow> extract_int unread;
     Some (start, finish)
   }"

record reader_state =
  lines_read :: int
  segments_read :: int
  lines_skipped :: int
  segments_data :: "segment list"

text \<open>
  The loop \<^verbatim>\<open>while (std::getline(file, line) && segments_read < total_segments_count)\<close>.
  The first equation is the failing \<^verbatim>\<open>getline\<close> at the end of the file; in the second
  a line has been read and the right operand of \<^verbatim>\<open>&&\<close> decides.
\<close>

fun read_loop :: "extractor \<Rightarrow> int \<Rightarrow> string list \<Rightarrow> reader_state \<Rightarrow> read_error + reader_state" where
  "read_loop extract_int total_segments_count [] st = Inr st"
| "read_loop extract_int total_segments_count (line # unread_lines) st =
     (if \<not> segments_read st < total_segments_count then Inr st
      else if line = []
        then read_loop extract_int total_segments_count unread_lines
               (st\<lparr>lines_read := lines_read st + 1, lines_skipped := lines_skipped st + 1\<rparr>)
        else case extract_pair extract_int line of
               None \<Rightarrow> Inl InvalidSegmentData
             | Some (start, finish) \<Rightarrow>
                 read_loop extract_int total_segments_count unread_lines
                   (st\<lparr>lines_read := lines_read st + 1,
                       segments_data := segments_data st @ [(min start finish, max start finish)],
                       segments_read := segments_read st + 1\<rparr>))"

text \<open>
  The reader returns the segments; the second component of the result records whether
  the warning \<^verbatim>\<open>"Segment count mismatch"\<close> was logged. Its test
  \<^verbatim>\<open>segments_data.size() != total_segments_count\<close> compares a \<^verbatim>\<open>size_t\<close> with an
  \<^verbatim>\<open>int\<close>, which C++ first converts to the unsigned 64-bit type.
\<close>

definition read_segments_from_file ::
  "extractor \<Rightarrow> string list option \<Rightarrow> read_error + (segment list \<times> bool)" where
  "read_segments_from_file extract_int input_file =
     (case input_file of
        None \<Rightarrow> Inl FileNotFound
      | Some [] \<Rightarrow> Inl EmptyFile
      | Some (first_line # data_lines) \<Rightarrow>
          (case extract_int first_line of
             None \<Rightarrow> Inl InvalidFormat
           | Some (total_segments_count, _) \<Rightarrow>
               (case read_loop extract_int total_segments_count data_lines
                       \<lparr>lines_read = 0, segments_read = 0, lines_skipped = 0, segments_data = []\<rparr> of
                  Inl e \<Rightarrow> Inl e
                | Inr st \<Rightarrow>
                    if segments_read st < total_segments_count then Inl UnexpectedEndOfFile
                    else Inr (segments_data st,
                              int (length (segments_data st)) \<noteq> total_segments_count mod 2 ^ 64))))"

text \<open>
  An extractor for the examples: decimal extraction as \<^verbatim>\<open>operator>>\<close> performs it in
  the C locale. Leading white space is skipped, an optional sign and a non-empty run of
  digits are consumed, and a value outside the range of \<^verbatim>\<open>int\<close> fails.
\<close>

definition is_space :: "char \<Rightarrow> bool" where
  "is_space c = (of_char c \<in> {9, 10, 11, 12, 13, 32 :: nat})"

definition is_digit :: "char \<Rightarrow> bool" where
  "is_digit c = (48 \<le> (of_char c :: nat) \<and> (of_char c :: nat) \<le> 57)"

definition digits_value :: "string \<Rightarrow> int" where
  "digits_value ds = foldl (\<lambda>acc c. 10 * acc + (int (of_char c) - 48)) 0 ds"

definition extract_decimal :: extractor where
  "extract_decimal s =
     (let s1 = dropWhile is_space s;
          negative = (take 1 s1 = ''-'');
          s2 = (if take 1 s1 = ''-'' \<or> take 1 s1 = ''+'' then drop 1 s1 else s1);
          ds = takeWhile is_digit s2;
          v = (if negative then - digits_value ds else digits_value ds)
      in if ds = [] \<or> v < - 2147483648 \<or> 2147483647 < v then None
         else Some (v, dropWhile is_digit s2))"

section \<open>Triangle minimum path sum (minimum\_total)\<close>

subsection \<open>Arithmetic and vector access\<close>

text \<open>
  The triangle solver adds and subtracts \<^verbatim>\<open>int\<close> values and indexes vectors with
  \<^verbatim>\<open>operator[]\<close>. Signed overflow and an index outside the vector are undefined
  behaviour in C++; neither raises a C++ exception. The embedding makes both explicit:
  an operation whose behaviour is undefined yields \<open>None\<close>, and \<open>None\<close> propagates
  to the result of the call.
\<close>

definition add_int :: "int \<Rightarrow> int \<Rightarrow> int option" where
  "add_int a b = (if int_range (a + b) then Some (a + b) else None)"

definition sub_int :: "int \<Rightarrow> int \<Rightarrow> int option" where
  "sub_int a b = (if int_range (a - b) then Some (a - b) else None)"

definition subscript :: "'a list \<Rightarrow> nat \<Rightarrow> 'a option" where
  "subscript xs i = (if i < length xs then Some (xs ! i) else None)"

subsection \<open>The dynamic programming table\<close>

text \<open>
  The inner loop \<^verbatim>\<open>for (size_t j = 0; j < triangle[i].size(); ++j)\<close> of the DP
  fill: the first argument holds the entries \<^verbatim>\<open>triangle[i][j], triangle[i][j+1], ...\<close>
  still to be processed, \<open>below\<close> is the finished row \<^verbatim>\<open>dp[i+1]\<close>.
\<close>

fun dp_update_row :: "int list \<Rightarrow> nat \<Rightarrow> int list \<Rightarrow> int list option" where
  "dp_update_row [] j below = Some []"
| "dp_update_row (x # xs) j below = do {
     a \<leftarrow> subscript below j;
     b \<leftarrow> subscript below (j + 1);
     v \<leftarrow> add_int x (min a b);
     rest \<leftarrow> dp_update_row xs (Suc j) below;
     Some (v # rest)
   }"

text \<open>
  The table \<^verbatim>\<open>dp\<close> after both fill loops. The last row is copied from the triangle;
  the outer loop \<^verbatim>\<open>for (int i = n-2; i >= 0; --i)\<close> computes row \<open>i\<close> from row
  \<open>i + 1\<close>, so the rows below are computed first.
\<close>

fun dp_table :: "int list list \<Rightarrow> int list list option" where
  "dp_table [] = Some []"
| "dp_table [last_row] = Some [last_row]"
| "dp_table (row # next_row # rest) = do {
     dp_below \<leftarrow> dp_table (next_row # rest);
     dp_next \<leftarrow> subscript dp_below 0;
     dp_row \<leftarrow> dp_update_row row 0 dp_next;
     Some (dp_row # dp_below)
   }"

subsection \<open>Path reconstruction\<close>

text \<open>
  The loop \<^verbatim>\<open>for (int i = 1; i < n; ++i)\<close>. The two list arguments are the rows
  \<open>i - 1, i, ...\<close> of the triangle and of the table, \<open>current_col\<close> is the loop's
  variable of that name; the result is the list of the values pushed to \<^verbatim>\<open>path\<close>
  from row \<open>i\<close> on.
\<close>

fun reconstruct :: "int list list \<Rightarrow> int list list \<Rightarrow> nat \<Rightarrow> int list option" where
  "reconstruct (t_prev # t_cur # ts) (dp_prev # dp_cur # ds) current_col = do {
     a \<leftarrow> subscript dp_prev current_col;
     b \<leftarrow> subscript t_prev current_col;
     expected_value \<leftarrow> sub_int a b;
     d \<leftarrow> subscript dp_cur current_col;
     if d = expected_value then do {
       v \<leftarrow> subscript t_cur current_col;
       rest \<leftarrow> reconstruct (t_cur # ts) (dp_cur # ds) current_col;
       Some (v # rest)
     } else do {
       v \<leftarrow> subscript t_cur (current_col + 1);
       rest \<leftarrow> reconstruct (t_cur # ts) (dp_cur # ds) (current_col + 1);
       Some (v # rest)
     }
   }"
| "reconstruct ts ds current_col = Some []"

subsection \<open>minimum\_total\<close>

text \<open>
  The body of \<^verbatim>\<open>minimum_total\<close>. The result \<open>None\<close> stands for undefined behaviour.
  The \<^verbatim>\<open>try\<close> block contains no \<^verbatim>\<open>throw\<close> and calls no throwing function of the
  repository: its \<^verbatim>\<open>catch (const std::exception&)\<close> clause, which returns
  \<^verbatim>\<open>{INT_MAX, {}}\<close>, can only be entered by an exception of the C++ runtime such
  as \<^verbatim>\<open>std::bad_alloc\<close>, which depends on the memory of the process and not on the
  triangle.
\<close>

definition minimum_total :: "int list list \<Rightarrow> (int \<times> int list) option" where
  "minimum_total triangle =
     (case triangle of
        [] \<Rightarrow> Some (0, [])
      | row0 # _ \<Rightarrow>
          if row0 = [] then Some (0, [])
          else do {
            dp \<leftarrow> dp_table triangle;
            first \<leftarrow> subscript row0 0;
            rest \<leftarrow> reconstruct triangle dp 0;
            dp0 \<leftarrow> subscript dp 0;
            min_sum \<leftarrow> subscript dp0 0;
            Some (min_sum, first # rest)
          })"

subsection \<open>Triangles, paths and the recurrence, as the specification words them\<close>

text \<open>A triangle is well formed when row \<open>i\<close> has exactly \<open>i + 1\<close> entries.\<close>

fun rows_from :: "nat \<Rightarrow> int list list \<Rightarrow> bool" where
  "rows_from i [] = True"
| "rows_from i (row # rest) = (length row = i + 1 \<and> rows_from (Suc i) rest)"

definition well_formed :: "int list list \<Rightarrow> bool" where
  "well_formed triangle = rows_from 0 triangle"

text \<open>
  A path is given by its columns, one per row: it starts in column 0 and each step keeps
  the column or moves to the next one.
\<close>

fun adjacent_steps :: "nat list \<Rightarrow> bool" where
  "adjacent_steps (c # d # cs) = ((d = c \<or> d = c + 1) \<and> adjacent_steps (d # cs))"
| "adjacent_steps cs = True"

definition valid_path :: "int list list \<Rightarrow> nat list \<Rightarrow> bool" where
  "valid_path triangle cols =
     (length cols = length triangle \<and> take 1 cols = [0] \<and> adjacent_steps cols)"

definition path_entries :: "int list list \<Rightarrow> nat list \<Rightarrow> int list" where
  "path_entries triangle cols = map2 (\<lambda>row c. row ! c) triangle cols"

text \<open>
  The bottom-up recurrence: \<open>dp[i][j] = triangle[i][j] + min(dp[i+1][j], dp[i+1][j+1])\<close>,
  with the last row equal to the last row of the triangle.
\<close>

function dp_rec :: "int list list \<Rightarrow> nat \<Rightarrow> nat \<Rightarrow> int" where
  "dp_rec triangle i j =
     (if i + 1 < length triangle
      then triangle ! i ! j + min (dp_rec triangle (i + 1) j) (dp_rec triangle (i + 1) (j + 1))
      else triangle ! i ! j)"
  by pat_completeness auto
termination
  by (relation "measure (\<lambda>(triangle, i, j). length triangle - i)") auto

declare dp_rec.simps [simp del]

text \<open>
  No DP value leaves the range of \<^verbatim>\<open>int\<close>: the condition under which the additions of
  the source are defined.
\<close>

definition representable :: "int list list \<Rightarrow> bool" where
  "representable triangle =
     list_all (\<lambda>i. list_all (\<lambda>j. int_range (dp_rec triangle i j)) [0..<length (triangle ! i)])
       [0..<length triangle]"


section \<open>Notions of the specification for the interval cover\<close>

text \<open>A list of points covers a list of intervals when each interval contains a point.\<close>

definition covers :: "int list \<Rightarrow> segment list \<Rightarrow> bool" where
  "covers points intervals =
     list_all (\<lambda>interval. list_ex (\<lambda>p. fst interval \<le> p \<and> p \<le> snd interval) points) intervals"

text \<open>
  The sweep as the specification words it: the current covering point is undefined at
  first; an interval selects its end when no point is chosen yet or the current point is
  strictly less than its start, and is skipped otherwise.
\<close>

fun specified_sweep :: "int option \<Rightarrow> segment list \<Rightarrow> int list" where
  "specified_sweep current [] = []"
| "specified_sweep current (interval # rest) =
     (case current of
        None \<Rightarrow> snd interval # specified_sweep (Some (snd interval)) rest
      | Some p \<Rightarrow>
          if p < fst interval then snd interval # specified_sweep (Some (snd interval)) rest
          else specified_sweep current rest)"

definition specified_points :: "(segment list \<Rightarrow> segment list) \<Rightarrow> segment list \<Rightarrow> int \<times> int list" where
  "specified_points std_sort intervals =
     (let points = specified_sweep None (std_sort intervals) in (int (length points), points))"

section \<open>Auxiliary notions for the proofs\<close>

text \<open>The normalisation \<open>(min(a, b), max(a, b))\<close> of the reader, and its data lines.\<close>

definition normalized :: "int \<times> int \<Rightarrow> segment" where
  "normalized p = (min (fst p) (snd p), max (fst p) (snd p))"

definition data_lines_of :: "string list \<Rightarrow> string list" where
  "data_lines_of unread_lines = filter (\<lambda>line. line \<noteq> []) unread_lines"

definition loop_result :: "read_error + reader_state \<Rightarrow> read_error + (segment list \<times> int)" where
  "loop_result r =
     (case r of Inl e \<Rightarrow> Inl e | Inr st \<Rightarrow> Inr (segments_data st, segments_read st))"

text \<open>
  The recurrence on the rows of a triangle from some row on: \<open>best rows c\<close> is the DP
  value of column \<open>c\<close> in the first of the rows.
\<close>

fun best :: "int list list \<Rightarrow> nat \<Rightarrow> int" where
  "best [] c = 0"
| "best [row] c = row ! c"
| "best (row # next_row # rest) c =
     row ! c + min (best (next_row # rest) c) (best (next_row # rest) (c + 1))"

text \<open>The columns that descend from column \<open>c\<close>, keeping the column whenever it is no worse.\<close>

fun chosen_cols :: "int list list \<Rightarrow> nat \<Rightarrow> nat list" where
  "chosen_cols [] c = []"
| "chosen_cols [row] c = [c]"
| "chosen_cols (row # next_row # rest) c =
     c # chosen_cols (next_row # rest)
           (if best (next_row # rest) c \<le> best (next_row # rest) (c + 1) then c else c + 1)"

fun dp_agrees :: "int list list \<Rightarrow> int list list \<Rightarrow> bool" where
  "dp_agrees [] [] = True"
| "dp_agrees (row # rest) (d # ds) =
     (length d = length row \<and> (\<forall>j<length row. d ! j = best (row # rest) j) \<and> dp_agrees rest ds)"
| "dp_agrees _ _ = False"

fun ranges_ok :: "int list list \<Rightarrow> bool" where
  "ranges_ok [] = True"
| "ranges_ok (row # rest) = ((\<forall>j<length row. int_range (best (row # rest) j)) \<and> ranges_ok rest)"

section \<open>Proofs: the interval cover\<close>

subsection \<open>Validation\<close>

lemma validate_segments_None:
  "validate_segments i xs = None \<longleftrightarrow> (\<forall>s\<in>set xs. fst s \<le> snd s)"
  by (induction xs arbitrary: i) auto


subsection \<open>Sorting\<close>

lemma sorts_by_end_sort_key: "sorts_by_end (sort_key snd)"
  by (simp add: sorts_by_end_def)

lemma sorts_by_end_set: "sorts_by_end std_sort \<Longrightarrow> set (std_sort xs) = set xs"
  unfolding sorts_by_end_def by (metis mset_eq_setD)


subsection \<open>The selection loop covers every segment\<close>







subsection \<open>The sentinel value of the selection loop\<close>

text \<open>
  A list whose ends are already in strictly ascending order is left unchanged by every
  sorting function that meets the contract.
\<close>

lemma sorts_by_end_id:
  assumes "sorts_by_end std_sort" "sorted (map snd xs)" "distinct (map snd xs)"
  shows "std_sort xs = xs"
proof -
  let ?ys = "std_sort xs"
  have m: "mset ?ys = mset xs" and srt: "sorted (map snd ?ys)"
    using assms(1) by (simp_all add: sorts_by_end_def)
  from m have "mset (map snd ?ys) = mset (map snd xs)" by simp
  with srt assms(2) have eq: "map snd ?ys = map snd xs"
    by (metis properties_for_sort)
  have "inj_on snd (set xs)" using assms(3) by (simp add: distinct_map)
  moreover have "set ?ys = set xs" using m by (rule mset_eq_setD)
  ultimately have "inj_on snd (set ?ys \<union> set xs)" by simp
  with eq show ?thesis using inj_on_map_eq_map[of snd ?ys xs] by blast
qed

text \<open>
  As long as no segment ends at \<open>-1\<close>, the value \<open>-1\<close> of
  \<^verbatim>\<open>current_covering_point\<close> means that no point is chosen, and the loop of the source
  is the sweep of the specification.
\<close>

lemma select_points_specified_sweep:
  assumes "\<forall>s\<in>set ss. snd s \<noteq> - 1" "current \<noteq> Some (- 1)"
  shows "select_points (case current of None \<Rightarrow> - 1 | Some p \<Rightarrow> p) ss = specified_sweep current ss"
  using assms
proof (induction ss arbitrary: current)
  case Nil
  then show ?case by simp
next
  case (Cons s ss)
  have rest: "\<forall>s\<in>set ss. snd s \<noteq> - 1" and e: "Some (snd s) \<noteq> Some (- 1)"
    using Cons.prems(1) by auto
  from Cons.IH[OF rest e] have sel: "select_points (snd s) ss = specified_sweep (Some (snd s)) ss"
    by simp
  show ?case
  proof (cases current)
    case None
    then show ?thesis using sel by (simp add: Let_def)
  next
    case (Some p)
    with Cons.prems(2) have "p \<noteq> - 1" by simp
    then show ?thesis using Some sel Cons.IH[OF rest Cons.prems(2)]
      by (simp add: Let_def)
  qed
qed

text \<open>
  The sweep of the specification selects the fewest points possible: each selected
  point answers an interval that starts after the previous point, so a set that meets
  every interval has a point of its own for each selection.
\<close>

lemma specified_sweep_lower_bound:
  assumes "finite Q" "\<forall>s\<in>set ss. \<exists>q\<in>Q. fst s \<le> q \<and> q \<le> snd s"
  shows "length (specified_sweep current ss)
           \<le> card {q \<in> Q. case current of None \<Rightarrow> True | Some c \<Rightarrow> c < q}"
  using assms(2)
proof (induction ss arbitrary: current)
  case Nil
  then show ?case by simp
next
  case (Cons s ss)
  let ?A = "\<lambda>cur. {q \<in> Q. case cur of None \<Rightarrow> True | Some c \<Rightarrow> c < q}"
  have rest: "\<forall>s\<in>set ss. \<exists>q\<in>Q. fst s \<le> q \<and> q \<le> snd s" using Cons.prems by simp
  from Cons.prems obtain q where q: "q \<in> Q" "fst s \<le> q" "q \<le> snd s" by auto
  have fin: "finite (?A cur)" for cur using assms(1) by simp
  have step: "Suc (length (specified_sweep (Some (snd s)) ss)) \<le> card (?A current)"
    if sel: "case current of None \<Rightarrow> True | Some c \<Rightarrow> c < fst s"
  proof -
    have "q \<in> ?A current" using q sel by (auto split: option.splits)
    moreover have "q \<notin> ?A (Some (snd s))" using q by simp
    moreover have "?A (Some (snd s)) \<subseteq> ?A current"
      using q sel by (auto split: option.splits)
    ultimately have "?A (Some (snd s)) \<subset> ?A current" by blast
    then have "card (?A (Some (snd s))) < card (?A current)"
      using fin by (rule psubset_card_mono[rotated])
    with Cons.IH[OF rest, of "Some (snd s)"] show ?thesis by simp
  qed
  show ?case
  proof (cases current)
    case None
    with step show ?thesis by simp
  next
    case (Some c)
    show ?thesis
    proof (cases "c < fst s")
      case True
      with step Some show ?thesis by simp
    next
      case False
      with Some Cons.IH[OF rest, of current] show ?thesis by simp
    qed
  qed
qed

text \<open>
  Hence the solver returns a minimum cover for every valid input in which no segment
  ends at \<open>-1\<close>.
\<close>

lemma minimum_when_no_end_is_minus_one:
  assumes "sorts_by_end std_sort" "\<forall>s\<in>set segments. snd s \<noteq> - 1"
    "find_minimum_points_to_cover_all_segments std_sort segments = Inr (n, points)"
    "finite Q" "\<forall>s\<in>set segments. \<exists>q\<in>Q. fst s \<le> q \<and> q \<le> snd s"
  shows "n = int (length points) \<and> length points \<le> card Q"
proof (cases "segments = []")
  case True
  with assms(3) show ?thesis by (simp add: find_minimum_points_to_cover_all_segments_def)
next
  case False
  let ?ss = "std_sort segments"
  have s: "set ?ss = set segments" using assms(1) by (rule sorts_by_end_set)
  from assms(3) False have p: "points = select_points (- 1) ?ss" "n = int (length points)"
    by (auto simp: find_minimum_points_to_cover_all_segments_def Let_def split: option.splits)
  have "select_points (case None of None \<Rightarrow> - 1 | Some p \<Rightarrow> p) ?ss = specified_sweep None ?ss"
    by (rule select_points_specified_sweep) (use assms(2) s in auto)
  then have "points = specified_sweep None ?ss" using p(1) by simp
  moreover have "length (specified_sweep None ?ss)
      \<le> card {q \<in> Q. case None :: int option of None \<Rightarrow> True | Some c \<Rightarrow> c < q}"
    by (rule specified_sweep_lower_bound[OF assms(4)]) (use assms(5) s in auto)
  ultimately show ?thesis using p(2) by simp
qed

lemma specified_points_when_no_end_is_minus_one:
  assumes "sorts_by_end std_sort" "\<forall>s\<in>set segments. fst s \<le> snd s"
    "\<forall>s\<in>set segments. snd s \<noteq> - 1"
  shows "find_minimum_points_to_cover_all_segments std_sort segments =
           Inr (specified_points std_sort segments)"
proof (cases "segments = []")
  case True
  have "mset (std_sort []) = mset ([] :: segment list)"
    using assms(1) unfolding sorts_by_end_def by blast
  then have "std_sort [] = []" by simp
  with True show ?thesis
    by (simp add: find_minimum_points_to_cover_all_segments_def specified_points_def)
next
  case False
  have v: "validate_segments 0 segments = None"
    using assms(2) by (simp add: validate_segments_None)
  have "\<forall>s\<in>set (std_sort segments). snd s \<noteq> - 1"
    using assms(1,3) by (simp add: sorts_by_end_set)
  from select_points_specified_sweep[OF this, of None]
  show ?thesis using False v
    by (simp add: find_minimum_points_to_cover_all_segments_def specified_points_def Let_def)
qed

text \<open>
  Claim C1 (minimum cardinality) fails on the code. The segments \<open>(-3, -1)\<close> and
  \<open>(-2, 0)\<close> are valid and already sorted by their ends. The loop selects \<open>-1\<close> for
  the first segment; \<^verbatim>\<open>current_covering_point\<close> is then \<open>-1\<close> again, the value the
  source uses for "no point chosen", so the second segment selects \<open>0\<close> although it
  contains \<open>-1\<close>. The solver returns two points where the single point \<open>-1\<close> covers
  both segments.
\<close>

theorem C1_two_points_where_one_suffices:
  assumes "sorts_by_end std_sort"
  shows "find_minimum_points_to_cover_all_segments std_sort [(- 3, - 1), (- 2, 0)]
           = Inr (2, [- 1, 0]) \<and>
         covers [- 1] [(- 3, - 1), (- 2, 0)]"
proof -
  have "std_sort [(- 3, - 1), (- 2, 0)] = [(- 3, - 1), (- 2, 0 :: int)]"
    by (rule sorts_by_end_id[OF assms]) simp_all
  then show ?thesis
    by (simp add: find_minimum_points_to_cover_all_segments_def covers_def)
qed

theorem C1_two_points_witness:
  "sorts_by_end (sort_key snd) \<and>
   find_minimum_points_to_cover_all_segments (sort_key snd) [(- 3, - 1), (- 2, 0)]
     = Inr (2, [- 1, 0]) \<and>
   covers [- 1] [(- 3, - 1), (- 2, 0)]"
  using C1_two_points_where_one_suffices[OF sorts_by_end_sort_key] sorts_by_end_sort_key
  by simp

text \<open>
  Claim C5 (the returned points are those of the specified sweep) fails on the code at
  the same input: the sweep of the specification, in which the current point is
  undefined until the first selection, skips the segment \<open>(-2, 0)\<close> because the
  current point \<open>-1\<close> is not less than its start, and yields the single point \<open>-1\<close>;
  the source yields \<open>-1\<close> and \<open>0\<close>. On the example of the claim, the segments
  \<open>(1, 2)\<close>, \<open>(2, 3)\<close>, \<open>(3, 4)\<close>, both yield the count 2 and the points 2 and 4.
\<close>

theorem C5_source_and_specified_sweep_differ:
  assumes "sorts_by_end std_sort"
  shows "find_minimum_points_to_cover_all_segments std_sort [(- 3, - 1), (- 2, 0)]
           = Inr (2, [- 1, 0]) \<and>
         specified_points std_sort [(- 3, - 1), (- 2, 0)] = (1, [- 1]) \<and>
         find_minimum_points_to_cover_all_segments std_sort [(1, 2), (2, 3), (3, 4)]
           = Inr (2, [2, 4]) \<and>
         specified_points std_sort [(1, 2), (2, 3), (3, 4)] = (2, [2, 4])"
proof -
  have "std_sort [(- 3, - 1), (- 2, 0)] = [(- 3, - 1), (- 2, 0 :: int)]"
    by (rule sorts_by_end_id[OF assms]) simp_all
  moreover have "std_sort [(1, 2), (2, 3), (3, 4)] = [(1, 2), (2, 3), (3, 4 :: int)]"
    by (rule sorts_by_end_id[OF assms]) simp_all
  ultimately show ?thesis
    by (simp add: find_minimum_points_to_cover_all_segments_def specified_points_def)
qed

theorem C5_differ_witness:
  "sorts_by_end (sort_key snd) \<and>
   find_minimum_points_to_cover_all_segments (sort_key snd) [(- 3, - 1), (- 2, 0)]
     = Inr (2, [- 1, 0]) \<and>
   specified_points (sort_key snd) [(- 3, - 1), (- 2, 0)] = (1, [- 1])"
  using C5_source_and_specified_sweep_differ[OF sorts_by_end_sort_key] sorts_by_end_sort_key
  by simp

section \<open>Proofs: the reader\<close>

lemma length_map_filter_all:
  "None \<notin> set (map f xs) \<Longrightarrow> length (List.map_filter f xs) = length xs"
  by (induction xs) (auto simp: List.map_filter_simps split: option.splits)

text \<open>
  What the loop computes from any state: it consumes the non-empty lines one by one
  until \<^verbatim>\<open>segments_read\<close> reaches the declared count, and raises on the first of them
  that does not yield two integers.
\<close>

lemma read_loop_char:
  "loop_result (read_loop ex n ls st) =
     (let taken = take (nat (n - segments_read st)) (data_lines_of ls) in
      if None \<in> set (map (extract_pair ex) taken) then Inl InvalidSegmentData
      else Inr (segments_data st @ map normalized (List.map_filter (extract_pair ex) taken),
                segments_read st + int (length taken)))"
proof (induction ls arbitrary: st)
  case Nil
  then show ?case by (simp add: loop_result_def data_lines_of_def List.map_filter_simps)
next
  case (Cons line ls)
  show ?case
  proof (cases "segments_read st < n")
    case False
    then have "nat (n - segments_read st) = 0" by simp
    then show ?thesis using False
      by (simp add: loop_result_def List.map_filter_simps)
  next
    case True
    then have k: "nat (n - segments_read st) = Suc (nat (n - (segments_read st + 1)))" by simp
    show ?thesis
    proof (cases "line = []")
      case e: True
      let ?st = "st\<lparr>lines_read := lines_read st + 1, lines_skipped := lines_skipped st + 1\<rparr>"
      have 1: "read_loop ex n (line # ls) st = read_loop ex n ls ?st" using True e by simp
      have 2: "data_lines_of (line # ls) = data_lines_of ls"
        using e by (simp add: data_lines_of_def)
      show ?thesis unfolding 1 2 Cons.IH[of ?st] by (simp add: Let_def)
    next
      case ne: False
      have d: "data_lines_of (line # ls) = line # data_lines_of ls"
        using ne by (simp add: data_lines_of_def)
      show ?thesis
      proof (cases "extract_pair ex line")
        case None
        then show ?thesis using True ne d k by (simp add: loop_result_def Let_def)
      next
        case (Some p)
        obtain a b where p: "p = (a, b)" by (cases p)
        let ?st = "st\<lparr>lines_read := lines_read st + 1,
                       segments_data := segments_data st @ [(min a b, max a b)],
                       segments_read := segments_read st + 1\<rparr>"
        have "read_loop ex n (line # ls) st = read_loop ex n ls ?st"
          using True ne Some p by simp
        then show ?thesis using Cons.IH[of ?st] Some p d k
          by (simp add: Let_def List.map_filter_simps normalized_def)
      qed
    qed
  qed
qed

lemma read_segments_char:
  assumes "ex first_line = Some (n, unread)"
  shows "read_segments_from_file ex (Some (first_line # ls)) =
     (let taken = take (nat n) (data_lines_of ls) in
      if None \<in> set (map (extract_pair ex) taken) then Inl InvalidSegmentData
      else if int (length taken) < n then Inl UnexpectedEndOfFile
      else Inr (map normalized (List.map_filter (extract_pair ex) taken),
                int (length taken) \<noteq> n mod 2 ^ 64))"
proof -
  let ?st0 = "\<lparr>lines_read = 0, segments_read = 0, lines_skipped = 0, segments_data = []\<rparr>"
  let ?taken = "take (nat n) (data_lines_of ls)"
  have c: "loop_result (read_loop ex n ls ?st0) =
      (if None \<in> set (map (extract_pair ex) ?taken) then Inl InvalidSegmentData
       else Inr (map normalized (List.map_filter (extract_pair ex) ?taken), int (length ?taken)))"
    unfolding read_loop_char Let_def
    by (simp only: reader_state.simps append_Nil diff_0_right add_0)
  show ?thesis
  proof (cases "None \<in> set (map (extract_pair ex) ?taken)")
    case True
    with c have "loop_result (read_loop ex n ls ?st0) = Inl InvalidSegmentData" by simp
    then have "read_loop ex n ls ?st0 = Inl InvalidSegmentData"
      by (simp add: loop_result_def split: sum.splits)
    then show ?thesis using True assms
      unfolding read_segments_from_file_def Let_def by simp
  next
    case False
    with c have "loop_result (read_loop ex n ls ?st0) =
        Inr (map normalized (List.map_filter (extract_pair ex) ?taken), int (length ?taken))"
      by simp
    then obtain st where st: "read_loop ex n ls ?st0 = Inr st"
      "segments_data st = map normalized (List.map_filter (extract_pair ex) ?taken)"
      "segments_read st = int (length ?taken)"
      by (auto simp: loop_result_def split: sum.splits)
    show ?thesis using False assms st length_map_filter_all[OF False]
      unfolding read_segments_from_file_def Let_def by simp
  qed
qed

lemma data_lines_of_idem: "data_lines_of (data_lines_of ls) = data_lines_of ls"
  by (simp add: data_lines_of_def)

text \<open>
  Claim C9 (blank lines, premature end of input). Empty data lines are skipped and do
  not count: the reader returns the same result, or raises the same exception, on the
  file with its empty data lines removed. When the first line yields the count \<open>n\<close>,
  every non-empty data line yields two integers and there are fewer than \<open>n\<close> of them,
  the end of the file is reached early and the reader raises "Unexpected end of file";
  it returns no segments.
\<close>

theorem C9_blank_lines_and_premature_end:
  "read_segments_from_file extract_int (Some (first_line # data_lines)) =
     read_segments_from_file extract_int
       (Some (first_line # filter (\<lambda>line. line \<noteq> []) data_lines)) \<and>
   (extract_int first_line = Some (n, unread) \<and>
    (\<forall>line\<in>set data_lines. line \<noteq> [] \<longrightarrow> extract_pair extract_int line \<noteq> None) \<and>
    int (length (filter (\<lambda>line. line \<noteq> []) data_lines)) < n
    \<longrightarrow> read_segments_from_file extract_int (Some (first_line # data_lines))
          = Inl UnexpectedEndOfFile)"
proof (intro conjI impI)
  show "read_segments_from_file extract_int (Some (first_line # data_lines)) =
     read_segments_from_file extract_int
       (Some (first_line # filter (\<lambda>line. line \<noteq> []) data_lines))"
  proof (cases "extract_int first_line")
    case None
    then show ?thesis by (simp add: read_segments_from_file_def)
  next
    case (Some a)
    obtain m u where "a = (m, u)" by (cases a)
    with Some have f: "extract_int first_line = Some (m, u)" by simp
    show ?thesis
      unfolding read_segments_char[of extract_int first_line m u, OF f] data_lines_of_idem
        data_lines_of_def[symmetric, of data_lines] ..
  qed
next
  assume h: "extract_int first_line = Some (n, unread) \<and>
    (\<forall>line\<in>set data_lines. line \<noteq> [] \<longrightarrow> extract_pair extract_int line \<noteq> None) \<and>
    int (length (filter (\<lambda>line. line \<noteq> []) data_lines)) < n"
  then have f: "extract_int first_line = Some (n, unread)" by simp
  let ?taken = "take (nat n) (data_lines_of data_lines)"
  from h have short: "int (length (data_lines_of data_lines)) < n"
    by (simp add: data_lines_of_def)
  then have t: "?taken = data_lines_of data_lines" by simp
  from h have ok: "None \<notin> set (map (extract_pair extract_int) ?taken)"
    unfolding t by (auto simp: data_lines_of_def)
  show "read_segments_from_file extract_int (Some (first_line # data_lines)) = Inl UnexpectedEndOfFile"
    unfolding read_segments_char[of extract_int first_line n unread, OF f] Let_def
    using ok short t by simp
qed

theorem C9_witness:
  "read_segments_from_file extract_decimal (Some [''3'', ''1 2'', '''', ''5 2''])
     = read_segments_from_file extract_decimal (Some [''3'', ''1 2'', ''5 2'']) \<and>
   extract_decimal ''3'' = Some (3, '''') \<and>
   read_segments_from_file extract_decimal (Some [''3'', ''1 2'', '''', ''5 2''])
     = Inl UnexpectedEndOfFile"
proof -
  let ?ls = "[''1 2'', '''', ''5 2'']"
  have f: "extract_decimal ''3'' = Some (3, '''')" by code_simp
  have p: "\<forall>line\<in>set ?ls. line \<noteq> [] \<longrightarrow> extract_pair extract_decimal line \<noteq> None"
    by code_simp
  have l: "int (length (filter (\<lambda>line. line \<noteq> []) ?ls)) < 3" by simp
  from C9_blank_lines_and_premature_end[of extract_decimal "''3''" ?ls 3 "''''"] f p l
  have "read_segments_from_file extract_decimal (Some (''3'' # ?ls)) =
          read_segments_from_file extract_decimal
            (Some (''3'' # filter (\<lambda>line. line \<noteq> []) ?ls))"
    and "read_segments_from_file extract_decimal (Some (''3'' # ?ls)) = Inl UnexpectedEndOfFile"
    by blast+
  with f show ?thesis by simp
qed

text \<open>
  Claim C10 (exactly \<open>n\<close> segments, no count-mismatch warning). When the first line
  yields a non-negative \<^verbatim>\<open>int\<close> \<open>n\<close> and the reader returns, it returns exactly \<open>n\<close>
  segments, namely the normalised pairs of the first \<open>n\<close> non-empty data lines, and the
  warning "Segment count mismatch" is not logged.
\<close>

theorem C10_exactly_n_segments_and_no_warning:
  assumes "extract_int first_line = Some (n, unread)" "0 \<le> n" "n \<le> INT_MAX"
    "read_segments_from_file extract_int (Some (first_line # data_lines)) = Inr (segments, warned)"
  shows "int (length segments) = n \<and> \<not> warned \<and>
         segments = map normalized (List.map_filter (extract_pair extract_int)
                      (take (nat n) (filter (\<lambda>line. line \<noteq> []) data_lines)))"
proof -
  let ?taken = "take (nat n) (data_lines_of data_lines)"
  from assms(4)[unfolded read_segments_char[of extract_int first_line n unread, OF assms(1)] Let_def]
  have ok: "None \<notin> set (map (extract_pair extract_int) ?taken)"
    and len: "\<not> int (length ?taken) < n"
    and segs: "segments = map normalized (List.map_filter (extract_pair extract_int) ?taken)"
    and w: "warned = (int (length ?taken) \<noteq> n mod 2 ^ 64)"
    by (auto split: if_splits)
  have "length ?taken \<le> nat n" by simp
  then have "int (length ?taken) \<le> n" using assms(2) by linarith
  with len have eq: "int (length ?taken) = n" by linarith
  have "n mod 2 ^ 64 = n" using assms(2,3) by (simp add: INT_MAX_def)
  with w eq have "\<not> warned" by simp
  moreover have "int (length segments) = n"
    using segs eq length_map_filter_all[OF ok] by simp
  ultimately show ?thesis using segs by (simp add: data_lines_of_def)
qed

theorem C10_witness:
  "extract_decimal ''2'' = Some (2, '''') \<and> (0::int) \<le> 2 \<and> 2 \<le> INT_MAX \<and>
   read_segments_from_file extract_decimal (Some [''2'', ''7 3'', '''', ''-4 9'', ''8 8''])
     = Inr ([(3, 7), (- 4, 9)], False) \<and>
   int (length [(3, 7), (- 4, 9 :: int)]) = 2"
proof -
  let ?ls = "[''7 3'', '''', ''-4 9'', ''8 8'']"
  have f: "extract_decimal ''2'' = Some (2, '''')" by code_simp
  have b: "(2::int) \<le> INT_MAX" by (simp add: INT_MAX_def)
  have r: "read_segments_from_file extract_decimal (Some (''2'' # ?ls))
             = Inr ([(3, 7), (- 4, 9)], False)" by code_simp
  from C10_exactly_n_segments_and_no_warning[OF f _ b r]
  have "int (length [(3, 7), (- 4, 9 :: int)]) = 2" by simp
  with f b r show ?thesis by simp
qed

section \<open>Proofs: the triangle\<close>

subsection \<open>The recursive notions, index by index\<close>

lemma rows_from_iff:
  "rows_from k t \<longleftrightarrow> (\<forall>i<length t. length (t ! i) = k + i + 1)"
proof (induction t arbitrary: k)
  case Nil
  then show ?case by simp
next
  case (Cons r rs)
  have "(\<forall>i<length (r # rs). length ((r # rs) ! i) = k + i + 1)
      \<longleftrightarrow> length r = k + 1 \<and> (\<forall>i<length rs. length (rs ! i) = Suc k + i + 1)"
    by (auto simp: less_Suc_eq_0_disj)
  with Cons show ?case by simp
qed

lemma well_formed_iff:
  "well_formed triangle \<longleftrightarrow> (\<forall>i<length triangle. length (triangle ! i) = i + 1)"
  by (simp add: well_formed_def rows_from_iff)

lemma adjacent_steps_iff:
  "adjacent_steps cols \<longleftrightarrow>
     (\<forall>i. i + 1 < length cols \<longrightarrow> cols ! (i + 1) = cols ! i \<or> cols ! (i + 1) = cols ! i + 1)"
proof (induction cols rule: adjacent_steps.induct)
  case (1 c d cs)
  have "(\<forall>i. i + 1 < length (c # d # cs) \<longrightarrow>
           (c # d # cs) ! (i + 1) = (c # d # cs) ! i \<or> (c # d # cs) ! (i + 1) = (c # d # cs) ! i + 1)
      \<longleftrightarrow> (d = c \<or> d = c + 1) \<and>
          (\<forall>i. i + 1 < length (d # cs) \<longrightarrow>
             (d # cs) ! (i + 1) = (d # cs) ! i \<or> (d # cs) ! (i + 1) = (d # cs) ! i + 1)"
    (is "?L \<longleftrightarrow> ?H \<and> ?R")
  proof
    assume l: ?L
    from l[rule_format, of 0] have ?H by simp
    moreover have ?R
    proof (intro allI impI)
      fix i assume "i + 1 < length (d # cs)"
      with l[rule_format, of "Suc i"]
      show "(d # cs) ! (i + 1) = (d # cs) ! i \<or> (d # cs) ! (i + 1) = (d # cs) ! i + 1"
        by simp
    qed
    ultimately show "?H \<and> ?R" ..
  next
    assume hr: "?H \<and> ?R"
    show ?L
    proof (intro allI impI)
      fix i assume i: "i + 1 < length (c # d # cs)"
      show "(c # d # cs) ! (i + 1) = (c # d # cs) ! i \<or>
            (c # d # cs) ! (i + 1) = (c # d # cs) ! i + 1"
      proof (cases i)
        case 0
        with hr show ?thesis by simp
      next
        case (Suc k)
        with i hr[THEN conjunct2, rule_format, of k] show ?thesis by simp
      qed
    qed
  qed
  with 1 show ?case by simp
qed simp_all

lemma valid_path_iff:
  "valid_path triangle cols \<longleftrightarrow>
     length cols = length triangle \<and> cols \<noteq> [] \<and> cols ! 0 = 0 \<and>
     (\<forall>i. i + 1 < length cols \<longrightarrow> cols ! (i + 1) = cols ! i \<or> cols ! (i + 1) = cols ! i + 1)"
proof -
  have "take 1 cols = [0] \<longleftrightarrow> cols \<noteq> [] \<and> cols ! 0 = 0"
    by (cases cols) auto
  then show ?thesis by (simp add: valid_path_def adjacent_steps_iff)
qed

subsection \<open>The table holds the values of the recurrence\<close>

lemma dp_rec_best: "i < length t \<Longrightarrow> dp_rec t i j = best (drop i t) j"
proof (induction t i j rule: dp_rec.induct)
  case (1 t i j)
  show ?case
  proof (cases "i + 1 < length t")
    case True
    then obtain r r' rs where d: "drop i t = r # r' # rs"
      by (metis Cons_nth_drop_Suc Suc_eq_plus1 Suc_lessD)
    then have d': "drop (i + 1) t = r' # rs"
      by (metis Suc_eq_plus1 drop_Suc list.sel(3) tl_drop)
    have r: "r = t ! i" using d 1(3) by (metis nth_via_drop)
    show ?thesis
      using True 1(1)[OF True] 1(2)[OF True] d d' r
      by (subst dp_rec.simps) simp
  next
    case False
    with 1(3) have "drop i t = [t ! i]"
      by (metis Cons_nth_drop_Suc Suc_eq_plus1 drop_all linorder_not_less)
    then show ?thesis using False by (subst dp_rec.simps) simp
  qed
qed

lemma dp_update_row_Some:
  "dp_update_row xs j below = Some d \<Longrightarrow>
     length d = length xs \<and>
     (\<forall>k<length xs. j + k + 1 < length below \<and>
         d ! k = xs ! k + min (below ! (j + k)) (below ! (j + k + 1)))"
proof (induction xs arbitrary: j d)
  case Nil
  then show ?case by simp
next
  case (Cons x xs)
  from Cons.prems obtain v rest where
    a: "j < length below" and b: "j + 1 < length below"
    and v: "int_range (x + min (below ! j) (below ! (j + 1)))"
       "v = x + min (below ! j) (below ! (j + 1))"
    and rest: "dp_update_row xs (Suc j) below = Some rest" and d: "d = v # rest"
    by (auto simp: subscript_def add_int_def split: bind_splits if_splits)
  from Cons.IH[OF rest] have IH: "length rest = length xs"
    "\<forall>k<length xs. Suc j + k + 1 < length below \<and>
         rest ! k = xs ! k + min (below ! (Suc j + k)) (below ! (Suc j + k + 1))" by auto
  show ?case
  proof (intro conjI allI impI)
    show "length d = length (x # xs)" using d IH(1) by simp
  next
    fix k assume "k < length (x # xs)"
    then show "j + k + 1 < length below" using b IH(2) by (cases k) auto
  next
    fix k assume "k < length (x # xs)"
    then show "d ! k = (x # xs) ! k + min (below ! (j + k)) (below ! (j + k + 1))"
      using d v IH(2) by (cases k) auto
  qed
qed

lemma dp_update_row_total:
  assumes "xs = [] \<or> j + length xs < length below"
    "\<forall>k<length xs. int_range (xs ! k + min (below ! (j + k)) (below ! (j + k + 1)))"
  shows "\<exists>d. dp_update_row xs j below = Some d"
  using assms
proof (induction xs arbitrary: j)
  case Nil
  then show ?case by simp
next
  case (Cons x xs)
  from Cons.prems(1) have len: "j + 1 + length xs < length below" by simp
  have r: "int_range (x + min (below ! j) (below ! (j + 1)))"
    using Cons.prems(2)[rule_format, of 0] by simp
  have "\<forall>k<length xs. int_range (xs ! k + min (below ! (Suc j + k)) (below ! (Suc j + k + 1)))"
    using Cons.prems(2) by (auto dest: spec[of _ "Suc _"])
  moreover have "xs = [] \<or> Suc j + length xs < length below" using len by simp
  ultimately obtain d where "dp_update_row xs (Suc j) below = Some d"
    using Cons.IH by blast
  then show ?case using len r by (simp add: subscript_def add_int_def)
qed

lemma dp_table_Some:
  "dp_table t = Some dp \<Longrightarrow> dp_agrees t dp"
proof (induction t arbitrary: dp rule: dp_table.induct)
  case 1
  then show ?case by simp
next
  case (2 last_row)
  then show ?case by auto
next
  case (3 row next_row rest)
  from "3.prems" obtain dp_below dp_next dp_row where
    below: "dp_table (next_row # rest) = Some dp_below"
    and nxt: "subscript dp_below 0 = Some dp_next"
    and row: "dp_update_row row 0 dp_next = Some dp_row"
    and dp: "dp = dp_row # dp_below"
    by (auto split: bind_splits)
  from "3.IH"[OF below] have ag: "dp_agrees (next_row # rest) dp_below" .
  then obtain ds where ds: "dp_below = dp_next # ds"
    "length dp_next = length next_row" "\<forall>j<length next_row. dp_next ! j = best (next_row # rest) j"
    using nxt by (cases dp_below) (auto simp: subscript_def)
  from dp_update_row_Some[OF row] have r: "length dp_row = length row"
    "\<forall>k<length row. k + 1 < length dp_next \<and>
         dp_row ! k = row ! k + min (dp_next ! k) (dp_next ! (k + 1))" by auto
  have "\<forall>j<length row. dp_row ! j = best (row # next_row # rest) j"
    using r(2) ds(2,3) by auto
  then show ?case using dp r(1) ag by simp
qed

subsection \<open>Paths and the recurrence\<close>

lemma path_entries_Cons [simp]:
  "path_entries (r # rs) (c # cs) = r ! c # path_entries rs cs"
  by (simp add: path_entries_def)

lemma path_entries_Nil [simp]: "path_entries [] cs = []" "path_entries rs [] = []"
  by (simp_all add: path_entries_def)

lemma best_le_path:
  "adjacent_steps (c # ds) \<Longrightarrow> length ds = length rs \<Longrightarrow>
     best (r # rs) c \<le> sum_list (path_entries (r # rs) (c # ds))"
proof (induction rs arbitrary: r c ds)
  case Nil
  then show ?case by simp
next
  case (Cons r' rs)
  from Cons.prems(2) obtain d ds' where ds: "ds = d # ds'" "length ds' = length rs"
    by (cases ds) auto
  from Cons.prems(1) ds have d: "d = c \<or> d = c + 1" and st: "adjacent_steps (d # ds')"
    by auto
  from Cons.IH[OF st ds(2)] have "best (r' # rs) d \<le> sum_list (path_entries (r' # rs) (d # ds'))" .
  moreover have "min (best (r' # rs) c) (best (r' # rs) (c + 1)) \<le> best (r' # rs) d"
    using d by auto
  ultimately show ?case using ds by simp
qed

lemma length_chosen_cols [simp]: "length (chosen_cols t c) = length t"
  by (induction t c rule: chosen_cols.induct) auto

lemma take1_chosen_cols: "t \<noteq> [] \<Longrightarrow> take 1 (chosen_cols t c) = [c]"
  by (induction t c rule: chosen_cols.induct) auto

lemma chosen_cols_Cons: "chosen_cols (r # rs) c = c # tl (chosen_cols (r # rs) c)"
  by (cases rs) auto

lemma adjacent_steps_chosen_cols: "adjacent_steps (chosen_cols t c)"
proof (induction t c rule: chosen_cols.induct)
  case (3 row next_row rest c)
  let ?d = "if best (next_row # rest) c \<le> best (next_row # rest) (c + 1) then c else c + 1"
  obtain tl' where "chosen_cols (next_row # rest) ?d = ?d # tl'"
    using chosen_cols_Cons by blast
  with 3 show ?case by (auto split: if_splits)
qed simp_all

lemma sum_chosen_cols: "t \<noteq> [] \<Longrightarrow> sum_list (path_entries t (chosen_cols t c)) = best t c"
  by (induction t c rule: chosen_cols.induct) (auto simp: min_def)

lemma chosen_cols_bound:
  "rows_from k t \<Longrightarrow> c \<le> k \<Longrightarrow> i < length t \<Longrightarrow> chosen_cols t c ! i \<le> k + i"
proof (induction t c arbitrary: k i rule: chosen_cols.induct)
  case (3 row next_row rest c)
  show ?case
  proof (cases i)
    case 0
    then show ?thesis using 3 by simp
  next
    case (Suc i')
    let ?d = "if best (next_row # rest) c \<le> best (next_row # rest) (c + 1) then c else c + 1"
    have "rows_from (Suc k) (next_row # rest)" "?d \<le> Suc k" "i' < length (next_row # rest)"
      using "3.prems" Suc by auto
    from "3.IH"[OF this] show ?thesis using Suc by simp
  qed
qed auto

subsection \<open>The reconstruction loop\<close>

lemma path_entries_chosen_Cons:
  "path_entries (r # rs) (chosen_cols (r # rs) c)
     = r ! c # tl (path_entries (r # rs) (chosen_cols (r # rs) c))"
  by (cases rs) auto

lemma reconstruct_step:
  "reconstruct (t_prev # t_cur # ts) (dp_prev # dp_cur # ds) c = Some rest \<longleftrightarrow>
    (\<exists>a b e d v r. subscript dp_prev c = Some a \<and> subscript t_prev c = Some b \<and>
       sub_int a b = Some e \<and> subscript dp_cur c = Some d \<and>
       subscript t_cur (if d = e then c else c + 1) = Some v \<and>
       reconstruct (t_cur # ts) (dp_cur # ds) (if d = e then c else c + 1) = Some r \<and>
       rest = v # r)"
  by (auto simp add: bind_eq_Some_conv)

lemma subscript_Some: "subscript xs i = Some v \<longleftrightarrow> i < length xs \<and> v = xs ! i"
  by (auto simp: subscript_def)

lemma sub_int_Some: "sub_int a b = Some e \<longleftrightarrow> int_range (a - b) \<and> e = a - b"
  by (auto simp: sub_int_def)

lemma add_int_Some: "add_int a b = Some e \<longleftrightarrow> int_range (a + b) \<and> e = a + b"
  by (auto simp: add_int_def)

lemma reconstruct_Some:
  "dp_agrees (t_prev # ts) (dp_prev # ds) \<Longrightarrow>
   reconstruct (t_prev # ts) (dp_prev # ds) c = Some rest \<Longrightarrow>
     rest = tl (path_entries (t_prev # ts) (chosen_cols (t_prev # ts) c))"
proof (induction ts arbitrary: t_prev dp_prev ds c rest)
  case Nil
  then show ?case by simp
next
  case (Cons t_cur ts)
  let ?t = "t_cur # ts"
  from Cons.prems(1) obtain dp_cur ds' where ds: "ds = dp_cur # ds'"
    by (cases ds) auto
  from Cons.prems(1) ds have ag: "dp_agrees ?t (dp_cur # ds')"
    and lp: "length dp_prev = length t_prev" and lc: "length dp_cur = length t_cur"
    and vp: "\<forall>j<length t_prev. dp_prev ! j = best (t_prev # ?t) j"
    and vc: "\<forall>j<length t_cur. dp_cur ! j = best ?t j"
    by auto
  let ?c' = "if best ?t c \<le> best ?t (c + 1) then c else c + 1"
  from Cons.prems(2)[unfolded ds reconstruct_step] obtain a b e d v r where
    a: "subscript dp_prev c = Some a" and b: "subscript t_prev c = Some b"
    and e: "sub_int a b = Some e" and d: "subscript dp_cur c = Some d"
    and v: "subscript t_cur (if d = e then c else c + 1) = Some v"
    and r: "reconstruct ?t (dp_cur # ds') (if d = e then c else c + 1) = Some r"
    and rest: "rest = v # r"
    by blast
  have "e = dp_prev ! c - t_prev ! c" and c1: "c < length t_prev"
    using a b e lp by (auto simp: subscript_Some sub_int_Some)
  then have e': "e = min (best ?t c) (best ?t (c + 1))"
    using vp by simp
  have d': "d = best ?t c" using d vc lc by (auto simp: subscript_Some)
  have cond: "(if d = e then c else c + 1) = ?c'"
    unfolding d' e' by auto
  from Cons.IH[OF ag r[unfolded cond]]
  have "r = tl (path_entries ?t (chosen_cols ?t ?c'))" .
  moreover have "v = t_cur ! ?c'" using v[unfolded cond] by (simp add: subscript_Some)
  moreover have "tl (path_entries (t_prev # ?t) (chosen_cols (t_prev # ?t) c))
      = path_entries ?t (chosen_cols ?t ?c')" by simp
  moreover have "path_entries ?t (chosen_cols ?t ?c')
      = t_cur ! ?c' # tl (path_entries ?t (chosen_cols ?t ?c'))"
    by (rule path_entries_chosen_Cons)
  ultimately show ?case using rest by metis
qed

lemma reconstruct_total:
  assumes "rows_from k (t_prev # ts)" "dp_agrees (t_prev # ts) (dp_prev # ds)"
    "ranges_ok (t_prev # ts)" "c \<le> k"
  shows "\<exists>rest. reconstruct (t_prev # ts) (dp_prev # ds) c = Some rest"
  using assms
proof (induction ts arbitrary: t_prev dp_prev ds c k)
  case Nil
  then show ?case by simp
next
  case (Cons t_cur ts)
  let ?t = "t_cur # ts"
  from Cons.prems(2) obtain dp_cur ds' where ds: "ds = dp_cur # ds'"
    by (cases ds) auto
  from Cons.prems(2) ds have ag: "dp_agrees ?t (dp_cur # ds')"
    and lp: "length dp_prev = length t_prev" and lc: "length dp_cur = length t_cur"
    and vp: "\<forall>j<length t_prev. dp_prev ! j = best (t_prev # ?t) j"
    and vc: "\<forall>j<length t_cur. dp_cur ! j = best ?t j"
    by auto
  from Cons.prems(1) have len: "length t_prev = k + 1" "length t_cur = k + 2"
    and rf: "rows_from (Suc k) ?t" by auto
  from Cons.prems(3) have ro: "ranges_ok ?t" and rng: "\<forall>j<length t_cur. int_range (best ?t j)"
    by auto
  let ?e = "dp_prev ! c - t_prev ! c"
  let ?c' = "if dp_cur ! c = ?e then c else c + 1"
  have e': "?e = min (best ?t c) (best ?t (c + 1))"
    using vp len Cons.prems(4) by simp
  have "int_range ?e" unfolding e' using rng len Cons.prems(4) by (simp add: min_def)
  moreover have "?c' \<le> Suc k" using Cons.prems(4) by simp
  from Cons.IH[OF rf ag ro this] obtain r where
    "reconstruct ?t (dp_cur # ds') ?c' = Some r" by blast
  ultimately show ?case unfolding ds reconstruct_step
    using len lp lc Cons.prems(4) by (simp add: subscript_Some sub_int_Some)
qed

lemma dp_table_total:
  assumes "rows_from k t" "ranges_ok t"
  shows "\<exists>dp. dp_table t = Some dp"
  using assms
proof (induction t arbitrary: k rule: dp_table.induct)
  case 1
  then show ?case by simp
next
  case (2 last_row)
  then show ?case by simp
next
  case (3 row next_row rest)
  let ?t = "next_row # rest"
  from "3.prems" have rf: "rows_from (Suc k) ?t" and ro: "ranges_ok ?t"
    and len: "length row = k + 1" "length next_row = k + 2"
    and rng: "\<forall>j<length row. int_range (best (row # ?t) j)" by auto
  from "3.IH"[OF rf ro] obtain dp_below where below: "dp_table ?t = Some dp_below" by blast
  from dp_table_Some[OF below] obtain dp_next ds where ds: "dp_below = dp_next # ds"
    "length dp_next = length next_row" "\<forall>j<length next_row. dp_next ! j = best ?t j"
    by (cases dp_below) auto
  have "\<forall>k<length row. int_range (row ! k + min (dp_next ! (0 + k)) (dp_next ! (0 + k + 1)))"
    using rng ds(2,3) len by simp
  moreover have "row = [] \<or> 0 + length row < length dp_next" using len ds(2) by simp
  ultimately obtain d where "dp_update_row row 0 dp_next = Some d"
    using dp_update_row_total by blast
  then show ?case using below ds by (simp add: subscript_def)
qed

subsection \<open>The result of minimum\_total\<close>

lemma ranges_ok_iff:
  "ranges_ok t \<longleftrightarrow> (\<forall>i<length t. \<forall>j<length (t ! i). int_range (best (drop i t) j))"
proof (induction t)
  case Nil
  then show ?case by simp
next
  case (Cons r rs)
  have "(\<forall>i<length (r # rs). \<forall>j<length ((r # rs) ! i). int_range (best (drop i (r # rs)) j))
      \<longleftrightarrow> (\<forall>j<length r. int_range (best (r # rs) j)) \<and>
          (\<forall>i<length rs. \<forall>j<length (rs ! i). int_range (best (drop i rs) j))"
    by (auto simp: less_Suc_eq_0_disj)
  with Cons show ?case by simp
qed

lemma representable_ranges_ok: "representable t \<longleftrightarrow> ranges_ok t"
  by (auto simp: representable_def ranges_ok_iff list_all_iff dp_rec_best)

lemma chosen_cols_tie:
  "i + 1 < length t \<Longrightarrow>
     chosen_cols t c ! (i + 1) =
       (if best (drop (i + 1) t) (chosen_cols t c ! i) \<le> best (drop (i + 1) t) (chosen_cols t c ! i + 1)
        then chosen_cols t c ! i else chosen_cols t c ! i + 1)"
proof (induction t c arbitrary: i rule: chosen_cols.induct)
  case (3 row next_row rest c)
  let ?d = "if best (next_row # rest) c \<le> best (next_row # rest) (c + 1) then c else c + 1"
  show ?case
  proof (cases i)
    case 0
    have "chosen_cols (next_row # rest) ?d ! 0 = ?d"
      by (subst chosen_cols_Cons) simp
    then show ?thesis using 0 by simp
  next
    case (Suc i')
    with "3.prems" have "i' + 1 < length (next_row # rest)" by simp
    from "3.IH"[OF this] show ?thesis using Suc by simp
  qed
qed simp_all

lemma minimum_total_Some:
  assumes "minimum_total (row0 # rest) = Some (min_sum, path)" "row0 \<noteq> []"
  shows "min_sum = best (row0 # rest) 0 \<and> path = path_entries (row0 # rest) (chosen_cols (row0 # rest) 0)"
proof -
  let ?t = "row0 # rest"
  from assms obtain dp first r dp0 where
    dp: "dp_table ?t = Some dp" and first: "subscript row0 0 = Some first"
    and r: "reconstruct ?t dp 0 = Some r" and dp0: "subscript dp 0 = Some dp0"
    and tot: "subscript dp0 0 = Some min_sum" and path: "path = first # r"
    by (auto simp: minimum_total_def bind_eq_Some_conv)
  from dp_table_Some[OF dp] have ag: "dp_agrees ?t dp" .
  with dp0 obtain ds where ds: "dp = dp0 # ds" "length dp0 = length row0"
    "\<forall>j<length row0. dp0 ! j = best ?t j"
    by (cases dp) (auto simp: subscript_Some)
  from reconstruct_Some[OF ag[unfolded ds(1)] r[unfolded ds(1)]]
  have "r = tl (path_entries ?t (chosen_cols ?t 0))" .
  moreover have "first = row0 ! 0" using first by (simp add: subscript_Some)
  ultimately have "path = path_entries ?t (chosen_cols ?t 0)"
    using path path_entries_chosen_Cons[of row0 rest 0] by simp
  moreover have "min_sum = best ?t 0" using tot ds assms(2) by (auto simp: subscript_Some)
  ultimately show ?thesis by simp
qed

lemma minimum_total_total:
  assumes "well_formed t" "t \<noteq> []" "representable t"
  shows "\<exists>min_sum path. minimum_total t = Some (min_sum, path)"
proof -
  from assms(2) obtain row0 rest where t: "t = row0 # rest" by (cases t) auto
  from assms(1) t have rf: "rows_from 0 (row0 # rest)" and ne: "row0 \<noteq> []"
    by (auto simp: well_formed_def)
  from assms(3) t have ro: "ranges_ok (row0 # rest)" by (simp add: representable_ranges_ok)
  from dp_table_total[OF rf ro] obtain dp where dp: "dp_table (row0 # rest) = Some dp" by blast
  from dp_table_Some[OF dp] have ag: "dp_agrees (row0 # rest) dp" .
  then obtain dp0 ds where ds: "dp = dp0 # ds" "length dp0 = length row0"
    by (cases dp) auto
  from reconstruct_total[OF rf ag[unfolded ds(1)] ro, of 0] obtain r where
    "reconstruct (row0 # rest) (dp0 # ds) 0 = Some r" by blast
  moreover have "dp0 \<noteq> []" using ds(2) ne by auto
  ultimately show ?thesis using t ne dp ds(1)
    by (simp add: minimum_total_def subscript_def)
qed

lemma valid_path_chosen_cols: "t \<noteq> [] \<Longrightarrow> valid_path t (chosen_cols t 0)"
  using take1_chosen_cols[of t 0] by (simp add: valid_path_def adjacent_steps_chosen_cols)

lemma valid_path_lower_bound:
  assumes "valid_path t cols"
  shows "best t 0 \<le> sum_list (path_entries t cols)"
proof (cases t)
  case Nil
  with assms show ?thesis by (simp add: valid_path_def)
next
  case (Cons r rs)
  with assms obtain ds where cols: "cols = 0 # ds" "length ds = length rs"
    by (cases cols) (auto simp: valid_path_def)
  with assms have "adjacent_steps (0 # ds)" by (simp add: valid_path_def)
  from best_le_path[OF this cols(2)] show ?thesis using Cons cols by simp
qed

lemma chosen_cols_in_row:
  assumes "well_formed t" "i < length t"
  shows "chosen_cols t 0 ! i < length (t ! i)"
proof -
  have rl: "rows_from k t \<Longrightarrow> i < length t \<Longrightarrow> length (t ! i) = k + i + 1" for k i
    by (induction t arbitrary: k i) (auto simp: nth_Cons split: nat.splits)
  from chosen_cols_bound[of 0 t 0 i] assms have "chosen_cols t 0 ! i \<le> i"
    by (simp add: well_formed_def)
  moreover have "length (t ! i) = i + 1" using rl[of 0 i] assms by (simp add: well_formed_def)
  ultimately show ?thesis by simp
qed

text \<open>
  What a returned result is, for any non-empty well-formed triangle: the total is the
  value \<open>dp[0][0]\<close> of the recurrence and the minimum over the valid paths.
\<close>

lemma minimum_total_returned_total:
  assumes "well_formed triangle" "triangle \<noteq> []"
    "minimum_total triangle = Some (min_sum, path)"
  shows "min_sum = dp_rec triangle 0 0 \<and>
       (\<exists>cols. valid_path triangle cols \<and> sum_list (path_entries triangle cols) = min_sum) \<and>
       (\<forall>cols. valid_path triangle cols \<longrightarrow> min_sum \<le> sum_list (path_entries triangle cols))"
proof (intro conjI allI impI)
  from assms(2) obtain row0 rest where t1: "triangle = row0 # rest"
    by (cases triangle) auto
  with assms(1) have "row0 \<noteq> []" by (auto simp: well_formed_def)
  note t = t1 this
  from minimum_total_Some[OF assms(3)[unfolded t(1)] t(2)] t
  have tot: "min_sum = best triangle 0" by simp
  show "min_sum = dp_rec triangle 0 0" using tot assms(2) dp_rec_best[of 0 triangle 0] by simp
  show "\<exists>cols. valid_path triangle cols \<and> sum_list (path_entries triangle cols) = min_sum"
    using valid_path_chosen_cols[OF assms(2)] sum_chosen_cols[OF assms(2), of 0] tot by blast
  fix cols assume "valid_path triangle cols"
  then show "min_sum \<le> sum_list (path_entries triangle cols)"
    using valid_path_lower_bound tot by simp
qed

text \<open>
  The returned path: its columns start at 0, and each step keeps the column exactly when
  the DP value below is not greater than the DP value below to the right.
\<close>

lemma minimum_total_returned_path:
  assumes "well_formed triangle" "triangle \<noteq> []"
    "minimum_total triangle = Some (min_sum, path)"
  shows "length path = length triangle \<and>
       sum_list path = min_sum \<and>
       (\<exists>cols. valid_path triangle cols \<and>
          (\<forall>i<length triangle. cols ! i < length (triangle ! i) \<and> path ! i = triangle ! i ! (cols ! i)) \<and>
          (\<forall>i. i + 1 < length triangle \<longrightarrow>
             cols ! (i + 1) =
               (if dp_rec triangle (i + 1) (cols ! i) \<le> dp_rec triangle (i + 1) (cols ! i + 1)
                then cols ! i else cols ! i + 1)))"
proof (intro conjI)
  from assms(2) obtain row0 rest where t1: "triangle = row0 # rest"
    by (cases triangle) auto
  with assms(1) have "row0 \<noteq> []" by (auto simp: well_formed_def)
  note t = t1 this
  let ?cols = "chosen_cols triangle 0"
  from minimum_total_Some[OF assms(3)[unfolded t(1)] t(2)] t
  have tot: "min_sum = best triangle 0" and path: "path = path_entries triangle ?cols"
    by simp_all
  show "length path = length triangle" using path by (simp add: path_entries_def)
  show "sum_list path = min_sum" using path tot sum_chosen_cols[OF assms(2)] by simp
  show "\<exists>cols. valid_path triangle cols \<and>
          (\<forall>i<length triangle. cols ! i < length (triangle ! i) \<and> path ! i = triangle ! i ! (cols ! i)) \<and>
          (\<forall>i. i + 1 < length triangle \<longrightarrow>
             cols ! (i + 1) =
               (if dp_rec triangle (i + 1) (cols ! i) \<le> dp_rec triangle (i + 1) (cols ! i + 1)
                then cols ! i else cols ! i + 1))"
  proof (intro exI[of _ ?cols] conjI allI impI)
    show "valid_path triangle ?cols" by (rule valid_path_chosen_cols[OF assms(2)])
  next
    fix i assume "i < length triangle"
    then show "?cols ! i < length (triangle ! i)" by (rule chosen_cols_in_row[OF assms(1)])
  next
    fix i assume "i < length triangle"
    then show "path ! i = triangle ! i ! (?cols ! i)"
      unfolding path by (simp add: path_entries_def)
  next
    fix i assume i: "i + 1 < length triangle"
    then show "?cols ! (i + 1) =
               (if dp_rec triangle (i + 1) (?cols ! i) \<le> dp_rec triangle (i + 1) (?cols ! i + 1)
                then ?cols ! i else ?cols ! i + 1)"
      using chosen_cols_tie[OF i, of 0] by (simp add: dp_rec_best del: chosen_cols.simps)
  qed
qed

text \<open>
  Claim C2 (the returned total is the minimum path sum), as stated for every non-empty
  well-formed triangle, fails where a DP sum leaves the range of \<^verbatim>\<open>int\<close>: the source
  adds \<^verbatim>\<open>int\<close> values without any check. In the triangle with the rows \<open>0\<close>;
  \<open>0, 2147483647\<close>; \<open>0, 1, 1\<close> every entry is an \<^verbatim>\<open>int\<close> and the minimum path sum is
  0, but the DP value of row 1, column 1 is \<open>2147483647 + 1\<close>: the addition overflows and
  the call has no defined result. In the triangle with the rows \<open>2147483647\<close>; \<open>1, 1\<close>
  the minimum path sum itself, \<open>2147483648\<close>, is no \<^verbatim>\<open>int\<close>, so no returned total can
  equal it.
\<close>

theorem C2_overflow_counterexample:
  "well_formed [[0], [0, 2147483647], [0, 1, 1]] \<and>
   [[0], [0, 2147483647], [0, 1, 1 :: int]] \<noteq> [] \<and>
   list_all (list_all int_range) [[0], [0, 2147483647], [0, 1, 1]] \<and>
   dp_rec [[0], [0, 2147483647], [0, 1, 1]] 0 0 = 0 \<and>
   dp_rec [[0], [0, 2147483647], [0, 1, 1]] 1 1 = 2147483648 \<and>
   minimum_total [[0], [0, 2147483647], [0, 1, 1]] = None \<and>
   well_formed [[2147483647], [1, 1]] \<and>
   list_all (list_all int_range) [[2147483647], [1, 1]] \<and>
   dp_rec [[2147483647], [1, 1]] 0 0 = 2147483648 \<and>
   \<not> int_range 2147483648 \<and>
   minimum_total [[2147483647], [1, 1]] = None"
  by code_simp

text \<open>
  Claim C2, amended: for every non-empty well-formed triangle in which every DP value of
  the recurrence fits the type \<^verbatim>\<open>int\<close> (no addition of the DP overflows), the call
  returns, and the returned total is the value \<open>dp[0][0]\<close> of the bottom-up recurrence:
  some valid path has this sum and no valid path has a smaller sum.
\<close>

theorem C2_total_is_minimum_path_sum:
  assumes "well_formed triangle" "triangle \<noteq> []" "representable triangle"
  shows "\<exists>min_sum path. minimum_total triangle = Some (min_sum, path) \<and>
       min_sum = dp_rec triangle 0 0 \<and>
       (\<exists>cols. valid_path triangle cols \<and> sum_list (path_entries triangle cols) = min_sum) \<and>
       (\<forall>cols. valid_path triangle cols \<longrightarrow> min_sum \<le> sum_list (path_entries triangle cols))"
proof -
  from minimum_total_total[OF assms] obtain min_sum path where
    m: "minimum_total triangle = Some (min_sum, path)" by blast
  from minimum_total_returned_total[OF assms(1,2) m] m show ?thesis by blast
qed

theorem C2_witness:
  "well_formed [[2],[3,4],[6,5,7],[4,1,8,3]] \<and>
   representable [[2],[3,4],[6,5,7],[4,1,8,3]] \<and>
   minimum_total [[2],[3,4],[6,5,7],[4,1,8,3]] = Some (11, [2,3,5,1]) \<and>
   dp_rec [[2],[3,4],[6,5,7],[4,1,8,3]] 0 0 = 11 \<and>
   valid_path [[2],[3,4],[6,5,7],[4,1,8,3]] [0,1,2,3] \<and>
   11 \<le> sum_list (path_entries [[2],[3,4],[6,5,7],[4,1,8,3]] [0,1,2,3])"
proof -
  let ?T = "[[2],[3,4],[6,5,7],[4,1,8,3]] :: int list list"
  have wf: "well_formed ?T" by code_simp
  have ne: "?T \<noteq> []" by simp
  have rep: "representable ?T" by code_simp
  have m: "minimum_total ?T = Some (11, [2,3,5,1])" by code_simp
  have vp: "valid_path ?T [0,1,2,3]" by code_simp
  from C2_total_is_minimum_path_sum[OF wf ne rep] m vp
  have "11 = dp_rec ?T 0 0" "11 \<le> sum_list (path_entries ?T [0,1,2,3])" by auto
  with wf rep m vp show ?thesis by simp
qed

text \<open>
  Claim C3 (the returned path), as stated for every non-empty well-formed triangle, fails
  where a DP sum leaves the range of \<^verbatim>\<open>int\<close>. In the triangle with the rows
  \<open>2147483647\<close>; \<open>1, 1\<close> both valid paths have the entries \<open>2147483647\<close> and \<open>1\<close>, whose
  sum \<open>2147483648\<close> is greater than \<open>INT_MAX\<close>: no \<^verbatim>\<open>int\<close> total equals the sum of the
  entries of a valid path, and the addition \<open>2147483647 + 1\<close> of the DP overflows, so
  that the call has no defined result.
\<close>

theorem C3_overflow_counterexample:
  "well_formed [[2147483647], [1, 1]] \<and>
   [[2147483647], [1, 1 :: int]] \<noteq> [] \<and>
   list_all (list_all int_range) [[2147483647], [1, 1]] \<and>
   valid_path [[2147483647], [1, 1]] [0, 0] \<and>
   valid_path [[2147483647], [1, 1]] [0, 1] \<and>
   path_entries [[2147483647], [1, 1]] [0, 0] = [2147483647, 1] \<and>
   path_entries [[2147483647], [1, 1]] [0, 1] = [2147483647, 1] \<and>
   sum_list [2147483647, 1] = (2147483648 :: int) \<and>
   INT_MAX < 2147483648 \<and>
   minimum_total [[2147483647], [1, 1]] = None"
  by code_simp

text \<open>
  Claim C3, amended: for every non-empty well-formed triangle in which every DP value of
  the recurrence fits the type \<^verbatim>\<open>int\<close> (no addition of the DP overflows), the call
  returns, the path has one entry per row and its entries sum to the returned total.
  There are columns, one per row, that start at column 0 and keep the column or move to
  the next one at each step, such that entry \<open>i\<close> of the path is the entry of row \<open>i\<close>
  at column \<open>i\<close> of these. Each step keeps the column exactly when the DP value below is
  not greater than the DP value below to the right; in particular a tie keeps the
  column.
\<close>

theorem C3_path_follows_adjacent_columns:
  assumes "well_formed triangle" "triangle \<noteq> []" "representable triangle"
  shows "\<exists>min_sum path. minimum_total triangle = Some (min_sum, path) \<and>
       length path = length triangle \<and>
       sum_list path = min_sum \<and>
       (\<exists>cols. valid_path triangle cols \<and>
          (\<forall>i<length triangle. cols ! i < length (triangle ! i) \<and> path ! i = triangle ! i ! (cols ! i)) \<and>
          (\<forall>i. i + 1 < length triangle \<longrightarrow>
             cols ! (i + 1) =
               (if dp_rec triangle (i + 1) (cols ! i) \<le> dp_rec triangle (i + 1) (cols ! i + 1)
                then cols ! i else cols ! i + 1)))"
proof -
  from minimum_total_total[OF assms] obtain min_sum path where
    m: "minimum_total triangle = Some (min_sum, path)" by blast
  from minimum_total_returned_path[OF assms(1,2) m] m show ?thesis by blast
qed

text \<open>
  In the triangle with the rows \<open>1\<close>; \<open>2, 3\<close>; \<open>5, 4, 3\<close> the DP values of row 1 are
  both 6. The paths \<open>1, 2, 4\<close> and \<open>1, 3, 3\<close> both have the minimum sum 7; the tie
  keeps column 0 in row 1, so the first of them is returned, with the columns
  \<open>0, 0, 1\<close>.
\<close>

theorem C3_witness:
  "well_formed [[1], [2, 3], [5, 4, 3]] \<and>
   representable [[1], [2, 3], [5, 4, 3]] \<and>
   dp_rec [[1], [2, 3], [5, 4, 3]] 1 0 = dp_rec [[1], [2, 3], [5, 4, 3]] 1 1 \<and>
   minimum_total [[1], [2, 3], [5, 4, 3]] = Some (7, [1, 2, 4]) \<and>
   valid_path [[1], [2, 3], [5, 4, 3]] [0, 0, 1] \<and>
   path_entries [[1], [2, 3], [5, 4, 3]] [0, 0, 1] = [1, 2, 4] \<and>
   length [1, 2, 4 :: int] = length [[1], [2, 3], [5, 4, 3 :: int]] \<and>
   sum_list [1, 2, 4] = (7 :: int) \<and>
   sum_list (path_entries [[1], [2, 3], [5, 4, 3]] [0, 1, 2]) = 7"
proof -
  let ?T = "[[1], [2, 3], [5, 4, 3]] :: int list list"
  have wf: "well_formed ?T" by code_simp
  have ne: "?T \<noteq> []" by simp
  have rep: "representable ?T" by code_simp
  have m: "minimum_total ?T = Some (7, [1, 2, 4])" by code_simp
  have d10: "dp_rec ?T (0 + 1) 0 = 6" and d11: "dp_rec ?T (0 + 1) (0 + 1) = 6"
    and d20: "dp_rec ?T (1 + 1) 0 = 5" and d21: "dp_rec ?T (1 + 1) (0 + 1) = 4"
    by code_simp+
  have other: "sum_list (path_entries ?T [0, 1, 2]) = 7" by code_simp
  from C3_path_follows_adjacent_columns[OF wf ne rep] obtain ms p cols where
    r: "minimum_total ?T = Some (ms, p)"
    and len: "length p = length ?T" and sm: "sum_list p = ms"
    and vp: "valid_path ?T cols"
    and en: "\<forall>i<length ?T. cols ! i < length (?T ! i) \<and> p ! i = ?T ! i ! (cols ! i)"
    and st: "\<forall>i. i + 1 < length ?T \<longrightarrow>
             cols ! (i + 1) =
               (if dp_rec ?T (i + 1) (cols ! i) \<le> dp_rec ?T (i + 1) (cols ! i + 1)
                then cols ! i else cols ! i + 1)"
    by (elim exE conjE)
  from r m have p: "p = [1, 2, 4]" and ms: "ms = 7" by simp_all
  from vp have l: "length cols = 3" and c0: "cols ! 0 = 0"
    by (simp_all add: valid_path_iff)
  have "cols ! (0 + 1) = (if dp_rec ?T (0 + 1) (cols ! 0) \<le> dp_rec ?T (0 + 1) (cols ! 0 + 1)
                then cols ! 0 else cols ! 0 + 1)"
    by (rule st[rule_format]) simp
  then have c1: "cols ! 1 = 0" unfolding c0 d10 d11 by simp
  have "cols ! (1 + 1) = (if dp_rec ?T (1 + 1) (cols ! 1) \<le> dp_rec ?T (1 + 1) (cols ! 1 + 1)
                then cols ! 1 else cols ! 1 + 1)"
    by (rule st[rule_format]) simp
  then have c2: "cols ! 2 = 1" unfolding c1 d20 d21 by (simp add: numeral_2_eq_2)
  have cols: "cols = [0, 0, 1]"
  proof (rule nth_equalityI)
    show "length cols = length [0, 0, 1 :: nat]" using l by simp
    fix i assume "i < length cols"
    then have "i = 0 \<or> i = 1 \<or> i = 2" using l by arith
    then show "cols ! i = [0, 0, 1] ! i" using c0 c1 c2 by auto
  qed
  have vp': "valid_path ?T [0, 0, 1]" using vp cols by simp
  have "\<forall>i<length ?T. path_entries ?T cols ! i = ?T ! i ! (cols ! i)"
    using l by (simp add: path_entries_def)
  with en p have "\<forall>i<length ?T. path_entries ?T cols ! i = [1, 2, 4] ! i" by simp
  then have pe: "path_entries ?T [0, 0, 1] = [1, 2, 4]"
    unfolding cols by (intro nth_equalityI) (simp_all add: path_entries_def)
  have tie: "dp_rec ?T 1 0 = dp_rec ?T 1 1" using d10 d11 by simp
  have len': "length [1, 2, 4 :: int] = length ?T" by simp
  have sm': "sum_list [1, 2, 4] = (7 :: int)" using sm p ms by simp
  show ?thesis
    by (intro conjI) (rule wf rep tie m vp' pe len' sm' other)+
qed

text \<open>
  Claim C8 (degenerate triangles). A triangle with no rows, and a triangle whose first
  row is empty, yield the total 0 and the empty path; the call returns normally.
\<close>

theorem C8_degenerate_triangle: "minimum_total [] = Some (0, []) \<and> minimum_total ([] # rest) = Some (0, [])"
  by (simp add: minimum_total_def)

subsection \<open>Faults and the sentinel result\<close>

text \<open>
  The faults that a triangle can cause are undefined behaviour and leave the call
  without a defined result: a DP sum that overflows the type \<^verbatim>\<open>int\<close>, and a read
  outside a row of a triangle that is not well formed.
\<close>

lemma minimum_total_overflow_example: "minimum_total [[2147483647], [1, 1]] = None"
  by code_simp

lemma minimum_total_short_row_example: "minimum_total [[1], [2]] = None"
  by code_simp

text \<open>
  The pair \<^verbatim>\<open>{INT_MAX, {}}\<close> of the \<^verbatim>\<open>catch\<close> clause is the result of no evaluation of
  the body: a returned path is empty for the degenerate triangles only, and their total
  is 0.
\<close>

lemma minimum_total_empty_path:
  assumes "minimum_total triangle = Some (min_sum, [])"
  shows "min_sum = 0 \<and> (triangle = [] \<or> hd triangle = [])"
proof (cases triangle)
  case Nil
  with assms show ?thesis by (simp add: minimum_total_def)
next
  case (Cons row0 rest)
  show ?thesis
  proof (cases "row0 = []")
    case True
    with assms Cons show ?thesis by (simp add: minimum_total_def)
  next
    case False
    with assms Cons have False
      by (auto simp: minimum_total_def bind_eq_Some_conv)
    then show ?thesis ..
  qed
qed

lemma minimum_total_never_sentinel: "minimum_total triangle \<noteq> Some (INT_MAX, [])"
proof
  assume "minimum_total triangle = Some (INT_MAX, [])"
  from minimum_total_empty_path[OF this] show False by (simp add: INT_MAX_def)
qed

end
